theory Spec2Isabelle
  imports Main "HOL-Library.Word" "HOL-Library.Multiset"
begin

section \<open>JavaScript strings\<close>

text \<open>
  A JavaScript string is a sequence of 16-bit code units. \<open>js\<close> writes an ASCII literal
  of the source as such a sequence; \<open>nl\<close> is the literal \<^verbatim>\<open>'\n'\<close>.
\<close>

type_synonym code_unit = "16 word"
type_synonym jsstring = "code_unit list"

definition js :: "string \<Rightarrow> jsstring" where
  "js s = map (\<lambda>c. of_nat (of_char c)) s"

definition nl :: jsstring where
  "nl = [0x000A]"

text \<open>
  \<^verbatim>\<open>String.prototype.trim\<close> removes the code units of ECMAScript's WhiteSpace and
  LineTerminator productions from both ends: TAB, VT, FF, SP, NBSP, ZWNBSP, the space
  separators of Unicode, LF, CR, LS and PS.
\<close>

definition is_ws :: "code_unit \<Rightarrow> bool" where
  "is_ws c \<longleftrightarrow>
     c = 0x0009 \<or> c = 0x000A \<or> c = 0x000B \<or> c = 0x000C \<or> c = 0x000D \<or> c = 0x0020 \<or>
     c = 0x00A0 \<or> c = 0x1680 \<or> (0x2000 \<le> c \<and> c \<le> 0x200A) \<or> c = 0x2028 \<or> c = 0x2029 \<or>
     c = 0x202F \<or> c = 0x205F \<or> c = 0x3000 \<or> c = 0xFEFF"

definition trim :: "jsstring \<Rightarrow> jsstring" where
  "trim s = rev (dropWhile is_ws (rev (dropWhile is_ws s)))"

text \<open>\<^verbatim>\<open>s.startsWith(p)\<close>, \<^verbatim>\<open>s.substring(start)\<close> with one argument.\<close>

definition startsWith :: "jsstring \<Rightarrow> jsstring \<Rightarrow> bool" where
  "startsWith s p \<longleftrightarrow> take (length p) s = p"

definition substring :: "jsstring \<Rightarrow> nat \<Rightarrow> jsstring" where
  "substring s start = drop start s"

text \<open>
  \<^verbatim>\<open>csvData.split('\n')\<close>: the pieces between the occurrences of the separator; the
  empty string splits into one empty piece.
\<close>

fun split_nl :: "jsstring \<Rightarrow> jsstring list" where
  "split_nl [] = [[]]"
| "split_nl (c # cs) =
     (if c = 0x000A then [] # split_nl cs
      else (case split_nl cs of [] \<Rightarrow> [[c]] | l # ls \<Rightarrow> (c # l) # ls))"

text \<open>\<^verbatim>\<open>Array.prototype.join\<close> and \<^verbatim>\<open>Array.prototype.slice(start, end)\<close>.\<close>

fun join :: "jsstring \<Rightarrow> jsstring list \<Rightarrow> jsstring" where
  "join sep [] = []"
| "join sep [x] = x"
| "join sep (x # y # ys) = x @ sep @ join sep (y # ys)"

definition slice :: "'a list \<Rightarrow> nat \<Rightarrow> nat \<Rightarrow> 'a list" where
  "slice xs start end = take (end - start) (drop start xs)"

text \<open>
  The \<^verbatim>\<open>size\<close> of a \<^verbatim>\<open>Blob\<close> built from one string is the length of its UTF-8
  encoding: a surrogate pair is four bytes, a lone surrogate is replaced by U+FFFD
  (three bytes).
\<close>

definition is_lead :: "code_unit \<Rightarrow> bool" where
  "is_lead c \<longleftrightarrow> 0xD800 \<le> c \<and> c \<le> 0xDBFF"

definition is_trail :: "code_unit \<Rightarrow> bool" where
  "is_trail c \<longleftrightarrow> 0xDC00 \<le> c \<and> c \<le> 0xDFFF"

fun blob_size :: "jsstring \<Rightarrow> nat" where
  "blob_size [] = 0"
| "blob_size [c] = (if c < 0x80 then 1 else if c < 0x800 then 2 else 3)"
| "blob_size (c # d # ds) =
     (if c < 0x80 then 1 + blob_size (d # ds)
      else if c < 0x800 then 2 + blob_size (d # ds)
      else if is_lead c \<and> is_trail d then 4 + blob_size ds
      else 3 + blob_size (d # ds))"

text \<open>
  A \<^verbatim>\<open>Set<string>\<close> iterates in insertion order and \<^verbatim>\<open>add\<close> leaves a set that
  already has the value as it is: the set is the list of its members in insertion order.
\<close>

definition set_add :: "jsstring \<Rightarrow> jsstring list \<Rightarrow> jsstring list" where
  "set_add v s = (if v \<in> set s then s else s @ [v])"

section \<open>The component's data\<close>

record FileStats =
  totalFiles :: int
  totalRecords :: int
  duplicatesRemoved :: int

record ProcessedChunk =
  data :: "jsstring list"
  size_bytes :: nat

text \<open>
  A selected file is what \<^verbatim>\<open>reader.readAsText(file)\<close> ends with: the \<^verbatim>\<open>load\<close> event
  with the decoded text, or the \<^verbatim>\<open>error\<close> event.
\<close>

datatype input_file = Readable jsstring | Unreadable

fun readAsText :: "input_file \<Rightarrow> jsstring option" where
  "readAsText (Readable csvData) = Some csvData"
| "readAsText Unreadable = None"

record app_state =
  selectedFiles :: "input_file list option"
  stats :: "FileStats option"
  processedChunks :: "ProcessedChunk list"

definition initial_state :: app_state where
  "initial_state = \<lparr>selectedFiles = None, stats = None, processedChunks = []\<rparr>"

datatype effect = Alert string | ConsoleError string

section \<open>handleFileChange\<close>

text \<open>The argument is \<^verbatim>\<open>event.target.files\<close>: \<^verbatim>\<open>null\<close> or a list of files.\<close>

definition handleFileChange :: "input_file list option \<Rightarrow> app_state \<Rightarrow> app_state" where
  "handleFileChange files st =
     (case files of
        None \<Rightarrow> st
      | Some fs \<Rightarrow> if length fs > 0 then st\<lparr>selectedFiles := Some fs\<rparr> else st)"

section \<open>processFiles\<close>

subsection \<open>The load handler of one file\<close>

text \<open>Lines 71 to 75: the value added to the set for one row.\<close>

definition normalize_row :: "jsstring \<Rightarrow> jsstring" where
  "normalize_row row =
     (let v = trim row;
          v = (if startsWith v (js ''0'') then substring v 1 else v)
      in js ''971'' @ v)"

function rows_loop :: "jsstring list \<Rightarrow> nat \<Rightarrow> jsstring list \<Rightarrow> jsstring list" where
  "rows_loop rows i mergedData =
     (if i < length rows
      then rows_loop rows (i + 1) (set_add (normalize_row (rows ! i)) mergedData)
      else mergedData)"
  by pat_completeness auto
termination
  by (relation "measure (\<lambda>(rows, i, mergedData). length rows - i)") auto

declare rows_loop.simps [simp del]

text \<open>
  The handler works on the two variables of the enclosing call, \<^verbatim>\<open>mergedData\<close> and
  \<^verbatim>\<open>totalRecords\<close> (here \<open>totalRecords'\<close>: the field of \<open>FileStats\<close> has the name), passed and
  returned as a pair.
\<close>

definition onload :: "jsstring \<Rightarrow> jsstring list \<times> int \<Rightarrow> jsstring list \<times> int" where
  "onload csvData vars =
     (case vars of (mergedData, totalRecords') \<Rightarrow>
        let rows = filter (\<lambda>row. trim row \<noteq> []) (split_nl csvData)
        in (rows_loop rows 1 mergedData, totalRecords' + (int (length rows) - 1)))"

subsection \<open>The order in which the reads complete\<close>

text \<open>
  All reads are started before any is awaited, and each load handler runs when its own
  read has completed. A schedule says which of the pending reads completes next: its
  head \<open>k\<close> picks the pending read at position \<open>k mod n\<close> of the \<open>n\<close> still pending, and
  when the schedule is used up the remaining reads complete in the order of the files.
\<close>

function completion_order :: "'a list \<Rightarrow> nat list \<Rightarrow> 'a list" where
  "completion_order [] ks = []"
| "completion_order (p # ps) [] = p # ps"
| "completion_order (p # ps) (k # ks) =
     (let i = k mod length (p # ps)
      in (p # ps) ! i # completion_order (take i (p # ps) @ drop (Suc i) (p # ps)) ks)"
  by pat_completeness auto
termination
  by (relation "measure (\<lambda>(ps, ks). length ps)") auto

definition merge_files :: "jsstring list \<Rightarrow> nat list \<Rightarrow> jsstring list \<times> int" where
  "merge_files texts sched = fold onload (completion_order texts sched) ([], 0)"

subsection \<open>Chunks\<close>

definition chunkSize :: nat where
  "chunkSize = 9000"

function chunk_loop ::
  "jsstring list \<Rightarrow> nat \<Rightarrow> ProcessedChunk list \<Rightarrow> ProcessedChunk list" where
  "chunk_loop uniqueData i chunks =
     (if i < length uniqueData
      then let chunk = slice uniqueData i (i + chunkSize)
           in chunk_loop uniqueData (i + chunkSize)
                (chunks @ [\<lparr>data = chunk, size_bytes = blob_size (join nl chunk)\<rparr>])
      else chunks)"
  by pat_completeness auto
termination
  by (relation "measure (\<lambda>(uniqueData, i, chunks). length uniqueData - i)")
     (auto simp: chunkSize_def)

declare chunk_loop.simps [simp del]

subsection \<open>The whole call\<close>

text \<open>
  \<^verbatim>\<open>Promise.all\<close> rejects as soon as one read fails, and the \<^verbatim>\<open>catch\<close> block runs in
  place of the rest of the \<^verbatim>\<open>try\<close> block; otherwise every load handler has run, in the
  order of completion, when the \<^verbatim>\<open>await\<close> returns. The result is the new state of the
  component and what the call showed.
\<close>

definition processFiles :: "app_state \<Rightarrow> nat list \<Rightarrow> app_state \<times> effect list" where
  "processFiles st sched =
     (case selectedFiles st of
        None \<Rightarrow> (st, [Alert ''Please select at least one CSV file.''])
      | Some files \<Rightarrow>
          (case those (map readAsText files) of
             None \<Rightarrow>
               (st, [ConsoleError ''Error reading files:'',
                     Alert ''Error processing files. Please try again.''])
           | Some texts \<Rightarrow>
               (case merge_files texts sched of (mergedData, totalRecords') \<Rightarrow>
                  let uniqueData = mergedData;
                      removed = totalRecords' - int (length uniqueData)
                  in (st\<lparr>stats := Some \<lparr>totalFiles = int (length files),
                                         totalRecords = totalRecords',
                                         duplicatesRemoved = removed\<rparr>,
                          processedChunks := chunk_loop uniqueData 0 []\<rparr>, []))))"

section \<open>downloadChunk\<close>

text \<open>
  The text of the \<^verbatim>\<open>Blob\<close> that \<^verbatim>\<open>downloadChunk\<close> offers for download. The name of
  the download, made of the date and the index, is not modelled.
\<close>

definition downloadChunk :: "jsstring list \<Rightarrow> jsstring" where
  "downloadChunk chunk = join nl chunk"

section \<open>The states the component can be in\<close>

inductive reachable :: "app_state \<Rightarrow> bool" where
  init: "reachable initial_state"
| change: "reachable st \<Longrightarrow> reachable (handleFileChange files st)"
| process: "reachable st \<Longrightarrow> reachable (fst (processFiles st sched))"

section \<open>Notions of the specification\<close>

text \<open>
  The elements of a list in the order of their first occurrences; the rows of a file
  that are not blank; the Records of a file, one for each row after the header.
\<close>

definition first_seen :: "'a list \<Rightarrow> 'a list" where
  "first_seen xs = rev (remdups (rev xs))"

definition surviving_rows :: "jsstring \<Rightarrow> jsstring list" where
  "surviving_rows csvData = filter (\<lambda>row. trim row \<noteq> []) (split_nl csvData)"

definition records_of :: "jsstring \<Rightarrow> jsstring list" where
  "records_of csvData = map normalize_row (drop 1 (surviving_rows csvData))"


text \<open>Every chunk but the last is full, and the last one is not empty.\<close>

definition sizes_ok :: "ProcessedChunk list \<Rightarrow> bool" where
  "sizes_ok cs \<longleftrightarrow>
     (\<forall>c\<in>set (butlast cs). length (data c) = chunkSize) \<and>
     (cs \<noteq> [] \<longrightarrow> 1 \<le> length (data (last cs)) \<and> length (data (last cs)) \<le> chunkSize)"


section \<open>Strings\<close>

lemma js_971: "js ''971'' = [0x39, 0x37, 0x31]"
  by (simp add: js_def)

lemma js_0: "js ''0'' = [0x30]"
  by (simp add: js_def)

lemma startsWith_0: "startsWith v (js ''0'') \<longleftrightarrow> v \<noteq> [] \<and> hd v = 0x30"
  by (cases v) (simp_all add: startsWith_def js_0)

lemma startsWith_append: "startsWith (p @ s) p"
  by (simp add: startsWith_def)

lemma not_ws_digits: "\<not> is_ws 0x39" "\<not> is_ws 0x31" "\<not> is_ws 0x30"
  by (simp_all add: is_ws_def)

lemma is_ws_nl: "is_ws 0x000A"
  by (simp add: is_ws_def)

lemma split_nl_not_Nil: "split_nl s \<noteq> []"
  by (induction s) (auto split: list.splits)

lemma split_nl_no_nl: "row \<in> set (split_nl s) \<Longrightarrow> 0x000A \<notin> set row"
proof (induction s arbitrary: row)
  case Nil
  then show ?case by simp
next
  case (Cons c cs)
  show ?case
  proof (cases "c = 0x000A")
    case True
    with Cons show ?thesis by auto
  next
    case False
    obtain l ls where sp: "split_nl cs = l # ls"
      using split_nl_not_Nil [of cs] by (cases "split_nl cs") auto
    with False Cons.prems have "row = c # l \<or> row \<in> set ls" by auto
    then show ?thesis
    proof
      assume "row = c # l"
      moreover have "0x000A \<notin> set l" using Cons.IH [of l] sp by simp
      ultimately show ?thesis using False by auto
    next
      assume "row \<in> set ls"
      then show ?thesis using Cons.IH [of row] sp by simp
    qed
  qed
qed

lemma set_trim: "set (trim s) \<subseteq> set s"
  by (auto simp: trim_def dest!: set_dropWhileD)

lemma trim_ends:
  assumes "trim s \<noteq> []"
  shows "\<not> is_ws (hd (trim s))" and "\<not> is_ws (last (trim s))"
proof -
  let ?d = "dropWhile is_ws s"
  let ?e = "dropWhile is_ws (rev ?d)"
  from assms have e: "?e \<noteq> []" by (simp add: trim_def)
  have d: "?d \<noteq> []"
  proof
    assume a: "?d = []"
    have "?e = []" unfolding a by simp
    with e show False by blast
  qed
  have "last (trim s) = hd ?e" using e by (simp add: trim_def last_rev)
  then show "\<not> is_ws (last (trim s))" using e hd_dropWhile [of is_ws "rev ?d"] by simp
  have "hd (trim s) = last ?e" using e by (simp add: trim_def hd_rev)
  also have "\<dots> = last (rev ?d)"
    using e by (metis append_Nil2 last_appendR takeWhile_dropWhile_id)
  also have "\<dots> = hd ?d" using d by (simp add: last_rev)
  finally show "\<not> is_ws (hd (trim s))" using d hd_dropWhile [of is_ws s] by simp
qed

lemma trim_id: "s \<noteq> [] \<Longrightarrow> \<not> is_ws (hd s) \<Longrightarrow> \<not> is_ws (last s) \<Longrightarrow> trim s = s"
proof -
  assume a: "s \<noteq> []" "\<not> is_ws (hd s)" "\<not> is_ws (last s)"
  then have "dropWhile is_ws s = s" by (cases s) auto
  moreover have "dropWhile is_ws (rev s) = rev s"
    using a by (cases "rev s") (auto simp: hd_rev)
  ultimately show ?thesis by (simp add: trim_def)
qed

lemma trim_prefix: "\<not> is_ws (hd s) \<Longrightarrow> \<exists>z. s = trim s @ z \<and> (\<forall>c\<in>set z. is_ws c)"
proof -
  assume a: "\<not> is_ws (hd s)"
  then have d: "dropWhile is_ws s = s" by (cases s) auto
  have "rev s = takeWhile is_ws (rev s) @ dropWhile is_ws (rev s)" by simp
  then have "s = rev (dropWhile is_ws (rev s)) @ rev (takeWhile is_ws (rev s))"
    by (metis rev_append rev_rev_ident)
  moreover have "\<forall>c\<in>set (rev (takeWhile is_ws (rev s))). is_ws c"
    by (auto dest: set_takeWhileD)
  ultimately show ?thesis using d unfolding trim_def by metis
qed

section \<open>The set and the load handler\<close>

lemma distinct_set_add: "distinct s \<Longrightarrow> distinct (set_add v s)"
  by (simp add: set_add_def)

lemma set_set_add: "set (set_add v s) = insert v (set s)"
  by (auto simp: set_add_def)

lemma length_set_add: "length (set_add v s) \<le> Suc (length s)"
  by (simp add: set_add_def)

lemma set_fold_set_add: "set (fold set_add vs s) = set s \<union> set vs"
  by (induction vs arbitrary: s) (auto simp: set_set_add)

lemma distinct_fold_set_add: "distinct s \<Longrightarrow> distinct (fold set_add vs s)"
  by (induction vs arbitrary: s) (auto simp: distinct_set_add)

lemma length_fold_set_add: "length (fold set_add vs s) \<le> length s + length vs"
proof (induction vs arbitrary: s)
  case Nil
  then show ?case by simp
next
  case (Cons v vs)
  have "length (fold set_add vs (set_add v s)) \<le> length (set_add v s) + length vs"
    by (rule Cons.IH)
  also have "\<dots> \<le> Suc (length s) + length vs"
    using length_set_add [of v s] by simp
  finally show ?case by simp
qed

lemma remdups_append_mem: "x \<in> set zs \<Longrightarrow> remdups (ys @ x # zs) = remdups (ys @ zs)"
  by (induction ys) auto

lemma fold_set_add_first_seen:
  "distinct s \<Longrightarrow> fold set_add vs s = first_seen (s @ vs)"
proof (induction vs arbitrary: s)
  case Nil
  then show ?case by (simp add: first_seen_def distinct_remdups_id)
next
  case (Cons v vs)
  show ?case
  proof (cases "v \<in> set s")
    case True
    then have "fold set_add (v # vs) s = fold set_add vs s" by (simp add: set_add_def)
    also have "\<dots> = first_seen (s @ vs)" using Cons by simp
    also have "\<dots> = first_seen (s @ v # vs)"
      using True remdups_append_mem [of v "rev s" "rev vs"] by (simp add: first_seen_def)
    finally show ?thesis .
  next
    case False
    then have "fold set_add (v # vs) s = fold set_add vs (s @ [v])" by (simp add: set_add_def)
    also have "\<dots> = first_seen ((s @ [v]) @ vs)"
      using False Cons.prems by (intro Cons.IH) simp
    finally show ?thesis by simp
  qed
qed

lemma rows_loop_fold:
  "rows_loop rows i mergedData = fold set_add (map normalize_row (drop i rows)) mergedData"
proof (induction rows i mergedData rule: rows_loop.induct)
  case (1 rows i mergedData)
  show ?case
  proof (cases "i < length rows")
    case True
    then have d: "drop i rows = rows ! i # drop (Suc i) rows"
      by (simp add: Cons_nth_drop_Suc)
    from True have "rows_loop rows i mergedData =
        rows_loop rows (i + 1) (set_add (normalize_row (rows ! i)) mergedData)"
      by (subst rows_loop.simps) simp
    also have "\<dots> = fold set_add (map normalize_row (drop (i + 1) rows))
        (set_add (normalize_row (rows ! i)) mergedData)"
      using True by (rule "1.IH")
    finally show ?thesis by (simp add: d)
  next
    case False
    then show ?thesis by (subst rows_loop.simps) simp
  qed
qed

lemma onload_eq:
  "onload csvData (mergedData, t) =
     (fold set_add (records_of csvData) mergedData,
      t + (int (length (surviving_rows csvData)) - 1))"
  by (simp add: onload_def rows_loop_fold records_of_def surviving_rows_def Let_def)

lemma fold_onload:
  "fold onload texts (mergedData, t) =
     (fold set_add (concat (map records_of texts)) mergedData,
      t + (\<Sum>csvData\<leftarrow>texts. int (length (surviving_rows csvData)) - 1))"
  by (induction texts arbitrary: mergedData t) (simp_all add: onload_eq)

lemma merge_files_eq:
  "merge_files texts sched =
     (first_seen (concat (map records_of (completion_order texts sched))),
      (\<Sum>csvData\<leftarrow>completion_order texts sched. int (length (surviving_rows csvData)) - 1))"
  by (simp add: merge_files_def fold_onload fold_set_add_first_seen)

section \<open>Schedules\<close>

lemma mset_completion_order: "mset (completion_order ps ks) = mset ps"
proof (induction ps ks rule: completion_order.induct)
  case (3 p ps k ks)
  let ?i = "k mod length (p # ps)"
  have i: "?i < length (p # ps)" by simp
  have "mset (completion_order (p # ps) (k # ks)) =
      {#(p # ps) ! ?i#} + mset (take ?i (p # ps) @ drop (Suc ?i) (p # ps))"
    using "3.IH" [of ?i] by (simp add: Let_def)
  also have "\<dots> = mset (take ?i (p # ps) @ (p # ps) ! ?i # drop (Suc ?i) (p # ps))"
    by simp
  also have "\<dots> = mset (p # ps)"
    using i by (simp only: Cons_nth_drop_Suc append_take_drop_id)
  finally show ?case .
qed simp_all

lemma completion_order_Nil: "completion_order ps [] = ps"
  by (cases ps) simp_all

lemma completion_order_complete:
  "mset qs = mset ps \<Longrightarrow> \<exists>ks. completion_order ps ks = qs"
proof (induction qs arbitrary: ps)
  case Nil
  then show ?case by simp
next
  case (Cons q qs)
  then have "q \<in> set ps" by (metis list.set_intros(1) set_mset_mset)
  then obtain i where i: "i < length ps" "ps ! i = q" by (auto simp: in_set_conv_nth)
  then obtain p ps' where ps: "ps = p # ps'" by (cases ps) auto
  let ?rest = "take i ps @ drop (Suc i) ps"
  have "ps = take i ps @ q # drop (Suc i) ps"
    using i id_take_nth_drop [of i ps] by simp
  then have "mset ps = mset (take i ps @ q # drop (Suc i) ps)" by (rule arg_cong)
  also have "\<dots> = add_mset q (mset ?rest)" by simp
  finally have "mset (q # qs) = add_mset q (mset ?rest)" using Cons.prems by simp
  then have "mset qs = mset ?rest" by simp
  then obtain ks where "completion_order ?rest ks = qs" using Cons.IH by blast
  then have "completion_order ps (i # ks) = q # qs"
    using i unfolding ps by (simp add: Let_def)
  then show ?case ..
qed

section \<open>The chunk loop\<close>

lemma chunkSize_pos: "0 < chunkSize"
  by (simp add: chunkSize_def)

lemma slice_chunk: "slice xs i (i + chunkSize) = take chunkSize (drop i xs)"
  by (simp add: slice_def)

lemma chunk_loop_step:
  "i < length xs \<Longrightarrow>
   chunk_loop xs i chunks =
   chunk_loop xs (i + chunkSize)
     (chunks @ [\<lparr>data = take chunkSize (drop i xs),
                 size_bytes = blob_size (join nl (take chunkSize (drop i xs)))\<rparr>])"
  by (subst chunk_loop.simps) (simp add: slice_chunk Let_def)

lemma chunk_loop_stop: "\<not> i < length xs \<Longrightarrow> chunk_loop xs i chunks = chunks"
  by (subst chunk_loop.simps) simp

lemma concat_chunk_loop:
  "concat (map data (chunk_loop xs i chunks)) = concat (map data chunks) @ drop i xs"
proof (induction xs i chunks rule: chunk_loop.induct)
  case (1 xs i chunks)
  show ?case
  proof (cases "i < length xs")
    case True
    have "take chunkSize (drop i xs) @ drop (i + chunkSize) xs = drop i xs"
      using append_take_drop_id [of chunkSize "drop i xs"] by (simp add: add.commute)
    then show ?thesis
      using True "1.IH" [OF True refl] by (simp add: chunk_loop_step slice_chunk)
  next
    case False
    then show ?thesis by (simp add: chunk_loop_stop)
  qed
qed

lemma chunk_loop_members:
  "c \<in> set (chunk_loop xs i chunks) \<Longrightarrow>
   c \<in> set chunks \<or> (data c \<noteq> [] \<and> set (data c) \<subseteq> set xs)"
proof (induction xs i chunks rule: chunk_loop.induct)
  case (1 xs i chunks)
  show ?case
  proof (cases "i < length xs")
    case False
    with "1.prems" show ?thesis by (simp add: chunk_loop_stop)
  next
    case True
    let ?c = "\<lparr>data = take chunkSize (drop i xs),
               size_bytes = blob_size (join nl (take chunkSize (drop i xs)))\<rparr>"
    from "1.prems" True have "c \<in> set (chunk_loop xs (i + chunkSize) (chunks @ [?c]))"
      by (simp add: chunk_loop_step)
    then have "c \<in> set (chunks @ [?c]) \<or> (data c \<noteq> [] \<and> set (data c) \<subseteq> set xs)"
      using "1.IH" [OF True refl] by (simp add: slice_chunk)
    moreover have "data ?c \<noteq> []" using True chunkSize_pos by simp
    moreover have "set (data ?c) \<subseteq> set xs"
      by (auto dest!: in_set_takeD in_set_dropD)
    ultimately show ?thesis by auto
  qed
qed

lemma sizes_ok_full: "\<forall>c\<in>set cs. length (data c) = chunkSize \<Longrightarrow> sizes_ok cs"
  unfolding sizes_ok_def using chunkSize_pos
  by (auto dest: in_set_butlastD simp: Suc_le_eq)

lemma sizes_ok_snoc:
  "\<forall>c\<in>set cs. length (data c) = chunkSize \<Longrightarrow> 1 \<le> length (data c') \<Longrightarrow>
   length (data c') \<le> chunkSize \<Longrightarrow> sizes_ok (cs @ [c'])"
  unfolding sizes_ok_def by simp

lemma chunk_loop_sizes:
  "\<forall>c\<in>set chunks. length (data c) = chunkSize \<Longrightarrow> sizes_ok (chunk_loop xs i chunks)"
proof (induction xs i chunks rule: chunk_loop.induct)
  case (1 xs i chunks)
  show ?case
  proof (cases "i < length xs")
    case False
    then have "chunk_loop xs i chunks = chunks" by (rule chunk_loop_stop)
    then show ?thesis using "1.prems" by (simp only: sizes_ok_full)
  next
    case True
    define c' where "c' = \<lparr>data = take chunkSize (drop i xs),
               size_bytes = blob_size (join nl (take chunkSize (drop i xs)))\<rparr>"
    have step: "chunk_loop xs i chunks = chunk_loop xs (i + chunkSize) (chunks @ [c'])"
      unfolding c'_def using True by (rule chunk_loop_step)
    have ih: "\<forall>c\<in>set (chunks @ [c']). length (data c) = chunkSize \<Longrightarrow>
        sizes_ok (chunk_loop xs (i + chunkSize) (chunks @ [c']))"
      using "1.IH" [OF True refl] unfolding slice_chunk c'_def .
    have len: "length (data c') = min chunkSize (length xs - i)"
      by (simp add: c'_def min.commute)
    show ?thesis
    proof (cases "i + chunkSize < length xs")
      case True
      then have "length (data c') = chunkSize" using len by simp
      with "1.prems" have "\<forall>c\<in>set (chunks @ [c']). length (data c) = chunkSize" by simp
      then show ?thesis unfolding step by (rule ih)
    next
      case False
      then have "chunk_loop xs (i + chunkSize) (chunks @ [c']) = chunks @ [c']"
        by (rule chunk_loop_stop)
      moreover have "1 \<le> length (data c')" "length (data c') \<le> chunkSize"
        using True chunkSize_pos len by simp_all
      ultimately show ?thesis unfolding step using "1.prems" by (simp only: sizes_ok_snoc)
    qed
  qed
qed

lemma chunk_loop_9005:
  assumes l: "length xs = 9005"
  shows "map (\<lambda>c. length (data c)) (chunk_loop xs 0 []) = [9000, 5]"
proof -
  define c1 where "c1 = \<lparr>data = take chunkSize (drop 0 xs),
      size_bytes = blob_size (join nl (take chunkSize (drop 0 xs)))\<rparr>"
  define c2 where "c2 = \<lparr>data = take chunkSize (drop (0 + chunkSize) xs),
      size_bytes = blob_size (join nl (take chunkSize (drop (0 + chunkSize) xs)))\<rparr>"
  have "0 < length xs" using l by simp
  then have s1: "chunk_loop xs 0 [] = chunk_loop xs (0 + chunkSize) ([] @ [c1])"
    unfolding c1_def by (rule chunk_loop_step)
  have "0 + chunkSize < length xs" using l by (simp add: chunkSize_def)
  then have s2: "chunk_loop xs (0 + chunkSize) ([] @ [c1]) =
      chunk_loop xs (0 + chunkSize + chunkSize) (([] @ [c1]) @ [c2])"
    unfolding c2_def by (rule chunk_loop_step)
  have "\<not> 0 + chunkSize + chunkSize < length xs" using l by (simp add: chunkSize_def)
  then have s3: "chunk_loop xs (0 + chunkSize + chunkSize) (([] @ [c1]) @ [c2]) =
      ([] @ [c1]) @ [c2]"
    by (rule chunk_loop_stop)
  have "length (data c1) = 9000" using l by (simp add: c1_def chunkSize_def)
  moreover have "length (data c2) = 5" using l by (simp add: c2_def chunkSize_def)
  ultimately show ?thesis unfolding s1 s2 s3 by simp
qed

section \<open>Records and exported text\<close>

lemma split_nl_line: "0x000A \<notin> set x \<Longrightarrow> split_nl x = [x]"
  by (induction x) auto

lemma split_nl_append: "0x000A \<notin> set x \<Longrightarrow> split_nl (x @ 0x000A # rest) = x # split_nl rest"
  by (induction x) auto

lemma split_nl_join:
  "sep = nl \<Longrightarrow> rs \<noteq> [] \<Longrightarrow> \<forall>r\<in>set rs. 0x000A \<notin> set r \<Longrightarrow> split_nl (join sep rs) = rs"
proof (induction sep rs rule: join.induct)
  case (1 sep)
  then show ?case by simp
next
  case (2 sep x)
  then show ?case by (simp add: split_nl_line)
next
  case (3 sep x y ys)
  then have "split_nl (join sep (y # ys)) = y # ys" by simp
  with 3 show ?case by (simp add: nl_def split_nl_append)
qed

lemma normalize_row_971: "startsWith (normalize_row row) (js ''971'')"
  by (simp add: normalize_row_def Let_def startsWith_append)

lemma normalize_row_no_nl:
  assumes "0x000A \<notin> set row"
  shows "0x000A \<notin> set (normalize_row row)"
proof -
  have t: "0x000A \<notin> set (trim row)" using assms set_trim [of row] by blast
  then have "0x000A \<notin> set (substring (trim row) 1)"
    unfolding substring_def by (blast dest: in_set_dropD)
  with t show ?thesis by (simp add: normalize_row_def Let_def js_971)
qed

lemma records_of_props:
  assumes "r \<in> set (records_of csvData)"
  shows "startsWith r (js ''971'')" and "0x000A \<notin> set r"
proof -
  from assms obtain row where row: "row \<in> set (drop 1 (surviving_rows csvData))"
    and r: "r = normalize_row row" unfolding records_of_def by auto
  from row have "row \<in> set (split_nl csvData)"
    unfolding surviving_rows_def by (auto dest: in_set_dropD)
  then have "0x000A \<notin> set row" by (rule split_nl_no_nl)
  then show "0x000A \<notin> set r" unfolding r by (rule normalize_row_no_nl)
  show "startsWith r (js ''971'')" unfolding r by (rule normalize_row_971)
qed

lemma merge_files_props:
  assumes "r \<in> set (fst (merge_files texts sched))"
  shows "startsWith r (js ''971'')" and "0x000A \<notin> set r"
proof -
  from assms obtain csvData where "r \<in> set (records_of csvData)"
    by (auto simp: merge_files_def fold_onload set_fold_set_add)
  then show "startsWith r (js ''971'')" and "0x000A \<notin> set r"
    by (rule records_of_props)+
qed

section \<open>The call and the reachable states\<close>

lemma those_readAsText_None:
  "those (map readAsText files) = None \<longleftrightarrow> Unreadable \<in> set files"
proof (induction files)
  case Nil
  then show ?case by simp
next
  case (Cons f files)
  then show ?case by (cases f) (auto split: option.splits)
qed

lemma processFiles_None:
  "selectedFiles st = None \<Longrightarrow>
   processFiles st sched = (st, [Alert ''Please select at least one CSV file.''])"
  by (simp add: processFiles_def)

lemma processFiles_failed:
  "selectedFiles st = Some files \<Longrightarrow> Unreadable \<in> set files \<Longrightarrow>
   processFiles st sched =
     (st, [ConsoleError ''Error reading files:'',
           Alert ''Error processing files. Please try again.''])"
  using those_readAsText_None [of files] by (simp add: processFiles_def)

lemma processFiles_ok:
  "selectedFiles st = Some files \<Longrightarrow> those (map readAsText files) = Some texts \<Longrightarrow>
   processFiles st sched =
     (st\<lparr>stats := Some \<lparr>totalFiles = int (length files),
                          totalRecords = snd (merge_files texts sched),
                          duplicatesRemoved = snd (merge_files texts sched) -
                            int (length (fst (merge_files texts sched)))\<rparr>,
         processedChunks := chunk_loop (fst (merge_files texts sched)) 0 []\<rparr>, [])"
  by (simp add: processFiles_def Let_def split: prod.splits)

lemma processFiles_empty_list:
  "selectedFiles st = Some [] \<Longrightarrow>
   processFiles st sched =
     (st\<lparr>stats := Some \<lparr>totalFiles = 0, totalRecords = 0, duplicatesRemoved = 0\<rparr>,
         processedChunks := []\<rparr>, [])"
  by (simp add: processFiles_ok merge_files_def chunk_loop_stop)

lemma selectedFiles_processFiles:
  "selectedFiles (fst (processFiles st sched)) = selectedFiles st"
  by (simp add: processFiles_def Let_def split: option.splits prod.splits)

lemma reachable_selected: "reachable st \<Longrightarrow> selectedFiles st \<noteq> Some []"
proof (induction rule: reachable.induct)
  case init
  then show ?case by (simp add: initial_state_def)
next
  case (change st files)
  then show ?case by (auto simp: handleFileChange_def split: option.splits)
next
  case (process st sched)
  then show ?case by (simp add: selectedFiles_processFiles)
qed

lemma reachable_chunks:
  "reachable st \<Longrightarrow> c \<in> set (processedChunks st) \<Longrightarrow>
   data c \<noteq> [] \<and> (\<forall>r\<in>set (data c). startsWith r (js ''971'') \<and> 0x000A \<notin> set r)"
proof (induction arbitrary: c rule: reachable.induct)
  case init
  then show ?case by (simp add: initial_state_def)
next
  case (change st files)
  then show ?case by (auto simp: handleFileChange_def split: option.splits if_splits)
next
  case (process st sched)
  show ?case
  proof (cases "selectedFiles st")
    case None
    then show ?thesis using process by (simp add: processFiles_None)
  next
    case (Some files)
    show ?thesis
    proof (cases "those (map readAsText files)")
      case None
      then have "Unreadable \<in> set files" by (simp add: those_readAsText_None)
      then show ?thesis using Some process by (simp add: processFiles_failed)
    next
      case (Some texts)
      with \<open>selectedFiles st = Some files\<close> process.prems
      have "c \<in> set (chunk_loop (fst (merge_files texts sched)) 0 [])"
        by (simp add: processFiles_ok)
      then have "data c \<noteq> []" "set (data c) \<subseteq> set (fst (merge_files texts sched))"
        using chunk_loop_members by fastforce+
      then show ?thesis using merge_files_props by blast
    qed
  qed
qed

section \<open>Normalization\<close>

lemma normalize_row_eq:
  "normalize_row row =
     js ''971'' @ (if trim row \<noteq> [] \<and> hd (trim row) = 0x30 then tl (trim row) else trim row)"
  by (simp add: normalize_row_def Let_def startsWith_0 substring_def drop_Suc)

lemma trim_normalize_row: "trim (normalize_row row) = normalize_row row"
proof (rule trim_id)
  let ?t = "trim row"
  let ?v = "if ?t \<noteq> [] \<and> hd ?t = 0x30 then tl ?t else ?t"
  have n: "normalize_row row = [0x39, 0x37, 0x31] @ ?v"
    by (simp only: normalize_row_eq js_971)
  show "normalize_row row \<noteq> []" unfolding n by simp
  show "\<not> is_ws (hd (normalize_row row))" unfolding n by (simp add: not_ws_digits)
  show "\<not> is_ws (last (normalize_row row))"
  proof (cases "?v = []")
    case True
    then show ?thesis unfolding n by (simp add: not_ws_digits)
  next
    case False
    then have t: "?t \<noteq> []" by (auto split: if_splits)
    from False have "last ?v = last ?t" by (auto simp: last_tl split: if_splits)
    moreover have "\<not> is_ws (last ?t)" using t by (rule trim_ends)
    ultimately show ?thesis unfolding n using False by simp
  qed
qed

lemma normalize_row_twice: "normalize_row (normalize_row row) = js ''971'' @ normalize_row row"
proof -
  have "hd (normalize_row row) = 0x39" by (simp add: normalize_row_eq js_971)
  then show ?thesis
    using normalize_row_eq [of "normalize_row row"] by (simp add: trim_normalize_row)
qed

lemma normalize_prefixed:
  assumes "startsWith v (js ''971'')"
  shows "normalize_row v = js ''971'' @ trim v"
    and "startsWith (trim v) (js ''971'')"
    and "normalize_row v \<noteq> v"
proof -
  from assms have "take (length [0x39, 0x37, 0x31 :: code_unit]) v = [0x39, 0x37, 0x31]"
    by (simp only: startsWith_def js_971)
  then have "v = [0x39, 0x37, 0x31] @ drop (length [0x39, 0x37, 0x31 :: code_unit]) v"
    by (metis append_take_drop_id)
  then obtain w where v: "v = [0x39, 0x37, 0x31] @ w" ..
  have t: "trim v = [0x39, 0x37, 0x31] @ rev (dropWhile is_ws (rev w))"
    unfolding v by (simp add: trim_def not_ws_digits dropWhile_append)
  then have h: "trim v \<noteq> []" "hd (trim v) = 0x39" by simp_all
  show n: "normalize_row v = js ''971'' @ trim v"
    using h by (simp add: normalize_row_eq)
  show "startsWith (trim v) (js ''971'')" unfolding t by (simp add: startsWith_def js_971)
  show "normalize_row v \<noteq> v"
  proof
    assume "normalize_row v = v"
    then have e: "[0x39, 0x37, 0x31] @ trim v = v" by (simp add: n js_971)
    have "\<not> is_ws (hd v)" unfolding v by (simp add: not_ws_digits)
    then obtain z where z: "v = trim v @ z" "\<forall>c\<in>set z. is_ws c"
      using trim_prefix by blast
    from e z(1) have "length z = 3" by (metis add_diff_cancel_right' length_append add.commute
          length_Cons list.size(3) numeral_3_eq_3)
    then have "z \<noteq> []" by auto
    then have "is_ws (last v)" using z by (metis last_appendR last_in_set)
    moreover have "last v = last (trim v)" using e h(1) by (metis last_appendR)
    moreover have "\<not> is_ws (last (trim v))" using h(1) by (rule trim_ends)
    ultimately show False by simp
  qed
qed

section \<open>Counting\<close>

lemma sum_list_perm:
  fixes f :: "'a \<Rightarrow> 'b::comm_monoid_add"
  shows "mset xs = mset ys \<Longrightarrow> sum_list (map f xs) = sum_list (map f ys)"
proof -
  assume "mset xs = mset ys"
  then have "mset (map f xs) = mset (map f ys)" by simp
  then have "sum_mset (mset (map f xs)) = sum_mset (mset (map f ys))" by (rule arg_cong)
  then show ?thesis by (simp only: sum_mset_sum_list)
qed

lemma rows_minus_header:
  "int (length (surviving_rows csvData)) - 1 =
   int (length (records_of csvData)) - (if surviving_rows csvData = [] then 1 else 0)"
  by (cases "surviving_rows csvData") (simp_all add: records_of_def)

lemma sum_rows_minus_header:
  "(\<Sum>csvData\<leftarrow>texts. int (length (surviving_rows csvData)) - 1) =
   (\<Sum>csvData\<leftarrow>texts. int (length (records_of csvData))) -
   int (length (filter (\<lambda>csvData. surviving_rows csvData = []) texts))"
  by (induction texts) (simp_all add: rows_minus_header)

lemma total_merge_files:
  "snd (merge_files texts sched) =
   (\<Sum>csvData\<leftarrow>texts. int (length (records_of csvData))) -
   int (length (filter (\<lambda>csvData. surviving_rows csvData = []) texts))"
proof -
  have "snd (merge_files texts sched) =
      (\<Sum>csvData\<leftarrow>completion_order texts sched. int (length (surviving_rows csvData)) - 1)"
    by (simp add: merge_files_eq)
  also have "\<dots> = (\<Sum>csvData\<leftarrow>texts. int (length (surviving_rows csvData)) - 1)"
    by (rule sum_list_perm) (rule mset_completion_order)
  finally show ?thesis by (simp only: sum_rows_minus_header)
qed

lemma length_concat_perm:
  "mset xs = mset ys \<Longrightarrow> length (concat xs) = length (concat ys)"
  by (simp only: length_concat sum_list_perm [of xs ys length])

lemma int_length_concat:
  "int (length (concat (map g xs))) = (\<Sum>x\<leftarrow>xs. int (length (g x)))"
  by (induction xs) simp_all

lemma unique_le_records:
  "int (length (fst (merge_files texts sched))) \<le>
   (\<Sum>csvData\<leftarrow>texts. int (length (records_of csvData)))"
proof -
  let ?order = "completion_order texts sched"
  have "length (fst (merge_files texts sched)) \<le> length (concat (map records_of ?order))"
    using length_fold_set_add [of "concat (map records_of ?order)" "[]"]
    by (simp add: merge_files_def fold_onload)
  also have "\<dots> = length (concat (map records_of texts))"
    by (rule length_concat_perm) (simp add: mset_completion_order)
  finally have "int (length (fst (merge_files texts sched))) \<le>
      int (length (concat (map records_of texts)))" by simp
  also have "\<dots> = (\<Sum>csvData\<leftarrow>texts. int (length (records_of csvData)))"
    by (rule int_length_concat)
  finally show ?thesis .
qed

lemma counts_without_blank_files:
  assumes "selectedFiles st = Some files" "those (map readAsText files) = Some texts"
    and "\<forall>csvData\<in>set texts. surviving_rows csvData \<noteq> []"
    and "stats (fst (processFiles st sched)) = Some s"
  shows "int (length (concat (map data (processedChunks (fst (processFiles st sched))))))
           \<le> totalRecords s"
    and "duplicatesRemoved s = totalRecords s -
           int (length (concat (map data (processedChunks (fst (processFiles st sched))))))"
    and "0 \<le> duplicatesRemoved s"
proof -
  let ?u = "fst (merge_files texts sched)"
  have f: "filter (\<lambda>csvData. surviving_rows csvData = []) texts = []"
    using assms(3) by (simp add: filter_empty_conv)
  have t: "snd (merge_files texts sched) = (\<Sum>csvData\<leftarrow>texts. int (length (records_of csvData)))"
    by (simp add: total_merge_files f)
  have c: "concat (map data (processedChunks (fst (processFiles st sched)))) = ?u"
    using assms(1,2) by (simp add: processFiles_ok concat_chunk_loop)
  have s: "s = \<lparr>totalFiles = int (length files), totalRecords = snd (merge_files texts sched),
      duplicatesRemoved = snd (merge_files texts sched) - int (length ?u)\<rparr>"
    using assms(1,2,4) by (simp add: processFiles_ok)
  have le: "int (length ?u) \<le> snd (merge_files texts sched)"
    unfolding t by (rule unique_le_records)
  show "int (length (concat (map data (processedChunks (fst (processFiles st sched))))))
           \<le> totalRecords s"
    unfolding c using le by (simp add: s)
  show "duplicatesRemoved s = totalRecords s -
           int (length (concat (map data (processedChunks (fst (processFiles st sched))))))"
    unfolding c by (simp add: s)
  show "0 \<le> duplicatesRemoved s" using le by (simp add: s)
qed

section \<open>Evaluation at concrete inputs\<close>

lemmas eval_simps =
  processFiles_def handleFileChange_def initial_state_def merge_files_def onload_def
  rows_loop_fold normalize_row_def trim_def is_ws_def startsWith_def substring_def
  set_add_def js_def nl_def chunk_loop_step chunk_loop_stop chunkSize_def Let_def

section \<open>The claims\<close>

text \<open>
  C5. For every sequence of unique records, the records of the chunks that the loop of
  lines 97 to 106 produces, concatenated in the order of the chunks, are the sequence
  itself: nothing is lost, repeated or moved.
\<close>

theorem chunks_concat_corpus:
  "concat (map data (chunk_loop uniqueData 0 [])) = uniqueData"
  by (simp add: concat_chunk_loop)

text \<open>
  C6. Every chunk but the last holds exactly 9000 records, the last one holds between 1
  and 9000, and 9005 records give two chunks of 9000 and 5 records.
\<close>

theorem chunk_size_bound:
  "(\<forall>c\<in>set (butlast (chunk_loop uniqueData 0 [])). length (data c) = 9000) \<and>
   (chunk_loop uniqueData 0 [] \<noteq> [] \<longrightarrow>
      1 \<le> length (data (last (chunk_loop uniqueData 0 []))) \<and>
      length (data (last (chunk_loop uniqueData 0 []))) \<le> 9000) \<and>
   (length uniqueData = 9005 \<longrightarrow>
      map (\<lambda>c. length (data c)) (chunk_loop uniqueData 0 []) = [9000, 5])"
proof -
  have "sizes_ok (chunk_loop uniqueData 0 [])"
    by (rule chunk_loop_sizes) simp
  then show ?thesis
    unfolding sizes_ok_def using chunk_loop_9005 [of uniqueData]
    by (simp add: chunkSize_def)
qed

theorem chunk_size_bound_witness:
  "length (map (\<lambda>n. js ''971'' @ [of_nat n]) [0..<9005]) = 9005 \<and>
   map (\<lambda>c. length (data c))
     (chunk_loop (map (\<lambda>n. js ''971'' @ [of_nat n]) [0..<9005]) 0 []) = [9000, 5] \<and>
   chunk_loop (map (\<lambda>n. js ''971'' @ [of_nat n]) [0..<9005]) 0 [] \<noteq> [] \<and>
   set (butlast (chunk_loop (map (\<lambda>n. js ''971'' @ [of_nat n]) [0..<9005]) 0 [])) \<noteq> {}"
proof -
  define W :: "jsstring list" where "W = map (\<lambda>n. js ''971'' @ [of_nat n]) [0..<9005]"
  have l: "length W = 9005"
    unfolding W_def by (simp only: length_map length_upt diff_zero)
  from chunk_size_bound [of W] l
  have m: "map (\<lambda>c. length (data c)) (chunk_loop W 0 []) = [9000, 5]" by blast
  then obtain c1 c2 where "chunk_loop W 0 [] = [c1, c2]" by auto
  then have "chunk_loop W 0 [] \<noteq> []" "set (butlast (chunk_loop W 0 [])) \<noteq> {}" by simp_all
  with l m show ?thesis unfolding W_def by blast
qed

text \<open>
  C7. When the read of one of the selected files fails, the call shows the alert and
  leaves the state as it was: no statistics and no chunks are set, and those of an
  earlier call stay.
\<close>

theorem read_failure_atomic:
  "selectedFiles st = Some files \<Longrightarrow> Unreadable \<in> set files \<Longrightarrow>
   processFiles st sched =
     (st, [ConsoleError ''Error reading files:'',
           Alert ''Error processing files. Please try again.''])"
  by (rule processFiles_failed)

theorem read_failure_atomic_witness:
  "processFiles
     \<lparr>selectedFiles = Some [Readable (js ''phone'' @ nl @ js ''0501234567''), Unreadable],
      stats = Some \<lparr>totalFiles = 1, totalRecords = 2, duplicatesRemoved = 1\<rparr>,
      processedChunks = [\<lparr>data = [js ''971501111111''], size_bytes = 12\<rparr>]\<rparr> [1] =
   (\<lparr>selectedFiles = Some [Readable (js ''phone'' @ nl @ js ''0501234567''), Unreadable],
      stats = Some \<lparr>totalFiles = 1, totalRecords = 2, duplicatesRemoved = 1\<rparr>,
      processedChunks = [\<lparr>data = [js ''971501111111''], size_bytes = 12\<rparr>]\<rparr>,
    [ConsoleError ''Error reading files:'',
     Alert ''Error processing files. Please try again.''])"
  by (rule read_failure_atomic [where files =
        "[Readable (js ''phone'' @ nl @ js ''0501234567''), Unreadable]"]) simp_all

text \<open>
  C8. In every state the component can reach, a call with no files selected shows the
  alert and does nothing else. (\<open>handleFileChange\<close> never stores an empty list, so no
  files selected means \<^verbatim>\<open>null\<close>.)
\<close>

theorem no_files_alert:
  "reachable st \<Longrightarrow> selectedFiles st = None \<or> selectedFiles st = Some [] \<Longrightarrow>
   processFiles st sched = (st, [Alert ''Please select at least one CSV file.''])"
  using reachable_selected [of st] by (auto simp: processFiles_None)

theorem no_files_alert_witness:
  "reachable (handleFileChange (Some []) initial_state) \<and>
   selectedFiles (handleFileChange (Some []) initial_state) = None \<and>
   processFiles (handleFileChange (Some []) initial_state) [] =
     (initial_state, [Alert ''Please select at least one CSV file.''])"
proof -
  have r: "reachable (handleFileChange (Some []) initial_state)"
    by (rule reachable.change) (rule reachable.init)
  have e: "handleFileChange (Some []) initial_state = initial_state"
    by (simp add: handleFileChange_def)
  have s: "selectedFiles (handleFileChange (Some []) initial_state) = None"
    unfolding e by (simp add: initial_state_def)
  from no_files_alert [OF r disjI1 [OF s], of "[]"] r s e show ?thesis by simp
qed

text \<open>
  C9. Every Record of the Corpus starts with \<^verbatim>\<open>971\<close>, and in every state the
  component can reach so does every record of every chunk and every line of the text
  that \<open>downloadChunk\<close> exports for a chunk.
\<close>

theorem records_start_with_971:
  "(\<forall>r\<in>set (fst (merge_files texts sched)). startsWith r (js ''971'')) \<and>
   (reachable st \<longrightarrow>
      (\<forall>c\<in>set (processedChunks st).
         (\<forall>r\<in>set (data c). startsWith r (js ''971'')) \<and>
         (\<forall>line\<in>set (split_nl (downloadChunk (data c))). startsWith line (js ''971''))))"
proof (intro conjI impI ballI)
  fix r assume "r \<in> set (fst (merge_files texts sched))"
  then show "startsWith r (js ''971'')" by (rule merge_files_props)
next
  fix c r assume "reachable st" "c \<in> set (processedChunks st)" "r \<in> set (data c)"
  then show "startsWith r (js ''971'')" using reachable_chunks by blast
next
  fix c line
  assume a: "reachable st" "c \<in> set (processedChunks st)"
    and l: "line \<in> set (split_nl (downloadChunk (data c)))"
  from a have c: "data c \<noteq> []" "\<forall>r\<in>set (data c). 0x000A \<notin> set r"
    and p: "\<forall>r\<in>set (data c). startsWith r (js ''971'')"
    using reachable_chunks by blast+
  from c have "split_nl (downloadChunk (data c)) = data c"
    unfolding downloadChunk_def by (intro split_nl_join) simp_all
  with l p show "startsWith line (js ''971'')" by simp
qed

theorem records_start_with_971_witness:
  "reachable (fst (processFiles (handleFileChange
      (Some [Readable (js ''phone'' @ nl @ js ''0501234567'')]) initial_state) [])) \<and>
   processedChunks (fst (processFiles (handleFileChange
      (Some [Readable (js ''phone'' @ nl @ js ''0501234567'')]) initial_state) [])) =
     [\<lparr>data = [js ''971501234567''], size_bytes = 12\<rparr>] \<and>
   fst (merge_files [js ''phone'' @ nl @ js ''0501234567''] []) = [js ''971501234567''] \<and>
   startsWith (js ''971501234567'') (js ''971'') \<and>
   split_nl (downloadChunk [js ''971501234567'']) = [js ''971501234567''] \<and>
   startsWith (hd (split_nl (downloadChunk [js ''971501234567'']))) (js ''971'')"
proof -
  define W where "W = fst (processFiles (handleFileChange
      (Some [Readable (js ''phone'' @ nl @ js ''0501234567'')]) initial_state) [])"
  have r: "reachable W"
    unfolding W_def by (intro reachable.process reachable.change reachable.init)
  have c: "processedChunks W = [\<lparr>data = [js ''971501234567''], size_bytes = 12\<rparr>]"
    unfolding W_def by (simp add: eval_simps)
  have m: "fst (merge_files [js ''phone'' @ nl @ js ''0501234567''] []) = [js ''971501234567'']"
    by (simp add: eval_simps)
  from records_start_with_971 [of "[js ''phone'' @ nl @ js ''0501234567'']" "[]" W] r
  have "\<forall>c\<in>set (processedChunks W).
         (\<forall>r\<in>set (data c). startsWith r (js ''971'')) \<and>
         (\<forall>line\<in>set (split_nl (downloadChunk (data c))). startsWith line (js ''971''))"
    by blast
  then have s: "startsWith (js ''971501234567'') (js ''971'')"
    and l: "\<forall>line\<in>set (split_nl (downloadChunk [js ''971501234567''])).
      startsWith line (js ''971'')"
    unfolding c by simp_all
  have d: "split_nl (downloadChunk [js ''971501234567'']) = [js ''971501234567'']"
    by (simp add: downloadChunk_def js_def)
  from l have "startsWith (hd (split_nl (downloadChunk [js ''971501234567'']))) (js ''971'')"
    unfolding d by simp
  with r c m s d show ?thesis unfolding W_def by blast
qed

text \<open>
  C1. The number of unique records is at most \<open>totalRecords\<close>, and \<open>duplicatesRemoved\<close>
  is \<open>totalRecords\<close> minus that number and never negative. The code breaks this on a file
  with no row that survives the filter: for one selected file with empty text it sets
  \<open>totalRecords\<close> and \<open>duplicatesRemoved\<close> to -1, with no record at all. (For files that
  all have a header row the claim holds: \<open>counts_without_blank_files\<close>.)
\<close>

theorem empty_file_counts:
  "processFiles (handleFileChange (Some [Readable []]) initial_state) [] =
     (\<lparr>selectedFiles = Some [Readable []],
       stats = Some \<lparr>totalFiles = 1, totalRecords = - 1, duplicatesRemoved = - 1\<rparr>,
       processedChunks = []\<rparr>, [])"
  by (simp add: eval_simps)

text \<open>
  C10. A file whose lines are all empty after trimming subtracts one from the running
  \<open>totalRecords\<close> and adds nothing to the set; selecting such a file beside others makes
  \<open>totalRecords\<close> one less than without it, with the same records.
\<close>

theorem blank_file_subtracts_one:
  "(\<forall>row\<in>set (split_nl csvData). trim row = []) \<Longrightarrow>
   onload csvData (mergedData, t) = (mergedData, t - 1) \<and>
   snd (merge_files (texts @ [csvData]) sched) = snd (merge_files texts sched') - 1 \<and>
   set (fst (merge_files (texts @ [csvData]) sched)) = set (fst (merge_files texts sched'))"
proof -
  assume a: "\<forall>row\<in>set (split_nl csvData). trim row = []"
  then have s: "surviving_rows csvData = []"
    by (simp add: surviving_rows_def filter_empty_conv)
  then have r: "records_of csvData = []" by (simp add: records_of_def)
  have 1: "onload csvData (mergedData, t) = (mergedData, t - 1)"
    by (simp add: onload_eq s r)
  have 2: "snd (merge_files (texts @ [csvData]) sched) = snd (merge_files texts sched') - 1"
    by (simp add: total_merge_files s r)
  have "set (fst (merge_files (texts @ [csvData]) sched)) =
      (\<Union>x\<in>set (completion_order (texts @ [csvData]) sched). set (records_of x))"
    by (simp add: merge_files_def fold_onload set_fold_set_add)
  also have "set (completion_order (texts @ [csvData]) sched) = set (texts @ [csvData])"
    by (rule mset_eq_setD) (rule mset_completion_order)
  also have "(\<Union>x\<in>set (texts @ [csvData]). set (records_of x)) =
      (\<Union>x\<in>set texts. set (records_of x))"
    by (simp add: r)
  also have "set texts = set (completion_order texts sched')"
    by (rule mset_eq_setD [symmetric]) (rule mset_completion_order)
  also have "(\<Union>x\<in>set (completion_order texts sched'). set (records_of x)) =
      set (fst (merge_files texts sched'))"
    by (simp add: merge_files_def fold_onload set_fold_set_add)
  finally have 3: "set (fst (merge_files (texts @ [csvData]) sched)) =
      set (fst (merge_files texts sched'))" .
  from 1 2 3 show ?thesis by blast
qed

theorem blank_file_subtracts_one_witness:
  "split_nl (js ''  '' @ nl) = [js ''  '', []] \<and> trim (js ''  '') = [] \<and> trim [] = [] \<and>
   onload (js ''  '' @ nl) ([js ''971501234567''], 1) = ([js ''971501234567''], 0) \<and>
   snd (merge_files ([js ''phone'' @ nl @ js ''0501234567''] @ [js ''  '' @ nl]) []) =
     snd (merge_files [js ''phone'' @ nl @ js ''0501234567''] []) - 1 \<and>
   stats (fst (processFiles (handleFileChange (Some [Readable (js ''phone'' @ nl @ js ''0501234567''),
       Readable (js ''  '' @ nl)]) initial_state) [])) =
     Some \<lparr>totalFiles = 2, totalRecords = 0, duplicatesRemoved = - 1\<rparr>"
proof -
  have sp: "split_nl (js ''  '' @ nl) = [js ''  '', []]"
    by (simp add: js_def nl_def)
  have tr: "trim (js ''  '') = []" "trim [] = []"
    by (simp_all add: js_def trim_def is_ws_def)
  have h: "\<forall>row\<in>set (split_nl (js ''  '' @ nl)). trim row = []"
    unfolding sp using tr by simp
  from blank_file_subtracts_one [OF h, of "[js ''971501234567'']" 1
      "[js ''phone'' @ nl @ js ''0501234567'']" "[]" "[]"]
  have "onload (js ''  '' @ nl) ([js ''971501234567''], 1) = ([js ''971501234567''], 0)"
    and "snd (merge_files ([js ''phone'' @ nl @ js ''0501234567''] @ [js ''  '' @ nl]) []) =
     snd (merge_files [js ''phone'' @ nl @ js ''0501234567''] []) - 1"
    by simp_all
  moreover have "stats (fst (processFiles (handleFileChange
       (Some [Readable (js ''phone'' @ nl @ js ''0501234567''),
       Readable (js ''  '' @ nl)]) initial_state) [])) =
     Some \<lparr>totalFiles = 2, totalRecords = 0, duplicatesRemoved = - 1\<rparr>"
    by (simp add: eval_simps)
  ultimately show ?thesis using sp tr by blast
qed

text \<open>
  C3. The load handler adds, in order, one Record for every row that is not blank
  after trimming, but for the first of these rows (the header). The Record of a row is
  \<^verbatim>\<open>971\<close> followed by the trimmed row, without its first character when that
  character is \<^verbatim>\<open>0\<close>: one zero is removed, never more.
\<close>

theorem normalizer_rows:
  "fst (onload csvData (mergedData, t)) =
     fold set_add
       (map normalize_row (drop 1 (filter (\<lambda>row. trim row \<noteq> []) (split_nl csvData))))
       mergedData \<and>
   normalize_row row =
     js ''971'' @ (if trim row \<noteq> [] \<and> hd (trim row) = 0x30 then tl (trim row) else trim row)"
  using normalize_row_eq [of row]
  by (simp add: onload_eq records_of_def surviving_rows_def)

theorem normalizer_rows_witness:
  "fst (onload (js ''phone'' @ nl @ js ''0501234567'' @ nl @ js '' '' @ nl @ js ''501234568'' @ nl)
        ([], 0)) = [js ''971501234567'', js ''971501234568''] \<and>
   normalize_row (js '' 00501 '') = js ''9710501''"
proof -
  have s: "split_nl (js ''phone'' @ nl @ js ''0501234567'' @ nl @ js '' '' @ nl @ js ''501234568'' @ nl)
      = [js ''phone'', js ''0501234567'', js '' '', js ''501234568'', []]"
    by (simp add: js_def nl_def)
  have t: "trim (js '' 00501 '') = js ''00501''"
    by (simp add: js_def trim_def is_ws_def)
  from normalizer_rows [of
      "js ''phone'' @ nl @ js ''0501234567'' @ nl @ js '' '' @ nl @ js ''501234568'' @ nl"
      "[]" 0 "js '' 00501 ''"]
  show ?thesis
    unfolding s t
    by (simp add: normalize_row_def trim_def is_ws_def startsWith_def substring_def
        set_add_def js_def Let_def)
qed

text \<open>
  C4. Normalization is not idempotent: normalizing a normalized value puts one more
  \<^verbatim>\<open>971\<close> in front of it, so the result differs; and every value that starts with
  \<^verbatim>\<open>971\<close> is normalized to a different value that starts with \<^verbatim>\<open>971971\<close>.
\<close>

theorem normalize_not_idempotent:
  "normalize_row (normalize_row row) = js ''971'' @ normalize_row row \<and>
   normalize_row (normalize_row row) \<noteq> normalize_row row \<and>
   (startsWith v (js ''971'') \<longrightarrow>
      startsWith (normalize_row v) (js ''971971'') \<and> normalize_row v \<noteq> v)"
proof (intro conjI impI)
  show t: "normalize_row (normalize_row row) = js ''971'' @ normalize_row row"
    by (rule normalize_row_twice)
  show "normalize_row (normalize_row row) \<noteq> normalize_row row"
    unfolding t by (simp add: js_971)
next
  assume a: "startsWith v (js ''971'')"
  then show "normalize_row v \<noteq> v" by (rule normalize_prefixed)
  from a have "normalize_row v = js ''971'' @ trim v" "startsWith (trim v) (js ''971'')"
    by (rule normalize_prefixed)+
  then show "startsWith (normalize_row v) (js ''971971'')"
    by (simp add: startsWith_def js_def)
qed

theorem normalize_not_idempotent_witness:
  "startsWith (js ''971501234567'') (js ''971'') \<and>
   normalize_row (js ''0501234567'') = js ''971501234567'' \<and>
   normalize_row (js ''971501234567'') = js ''971971501234567'' \<and>
   startsWith (normalize_row (js ''971501234567'')) (js ''971971'') \<and>
   normalize_row (js ''971501234567'') \<noteq> js ''971501234567''"
proof -
  have a: "startsWith (js ''971501234567'') (js ''971'')"
    by (simp add: startsWith_def js_def)
  have n: "normalize_row (js ''0501234567'') = js ''971501234567''"
    by (simp add: normalize_row_def trim_def is_ws_def startsWith_def substring_def js_def
        Let_def)
  from normalize_not_idempotent [of "js ''0501234567''" "js ''971501234567''"] a
  have "normalize_row (js ''971501234567'') = js ''971'' @ js ''971501234567''"
    and "startsWith (normalize_row (js ''971501234567'')) (js ''971971'')"
    and "normalize_row (js ''971501234567'') \<noteq> js ''971501234567''"
    unfolding n by blast+
  moreover have "js ''971'' @ js ''971501234567'' = js ''971971501234567''"
    by (simp add: js_def)
  ultimately show ?thesis using a n by simp
qed

text \<open>
  C2, as stated: the order of the Corpus is given by the order of the selected files and
  is the same on every run. It is not: for the same two files in the same order, the
  Corpus has the record of the second file first when the read of the second file
  completes first.
\<close>

theorem corpus_order_counterexample:
  "map data (processedChunks (fst (processFiles (handleFileChange
      (Some [Readable (js ''phone'' @ nl @ js ''0501234567''),
             Readable (js ''phone'' @ nl @ js ''501234568'')]) initial_state) [1]))) =
     [[js ''971501234568'', js ''971501234567'']] \<and>
   map data (processedChunks (fst (processFiles (handleFileChange
      (Some [Readable (js ''phone'' @ nl @ js ''0501234567''),
             Readable (js ''phone'' @ nl @ js ''501234568'')]) initial_state) []))) =
     [[js ''971501234567'', js ''971501234568'']]"
  by (simp add: eval_simps)

text \<open>
  C2, amended. The Corpus is the sequence of first occurrences in the Records of the
  files taken in the order in which their reads complete, and in the order of the rows
  within each file. The order of completion is a permutation of the selected files; when
  the reads complete in the order of the selected files, the Corpus follows that order.
\<close>

theorem corpus_order:
  "fst (merge_files texts sched) =
     first_seen (concat (map records_of (completion_order texts sched))) \<and>
   mset (completion_order texts sched) = mset texts \<and>
   completion_order texts [] = texts \<and>
   fst (merge_files texts []) = first_seen (concat (map records_of texts))"
  by (simp add: merge_files_eq mset_completion_order completion_order_Nil)

theorem corpus_order_witness:
  "fst (merge_files [js ''phone'' @ nl @ js ''0501234567'' @ nl @ js ''501234568'',
                     js ''phone'' @ nl @ js ''501234568'' @ nl @ js ''0501111111''] [1]) =
     [js ''971501234568'', js ''971501111111'', js ''971501234567''] \<and>
   completion_order [js ''phone'' @ nl @ js ''0501234567'' @ nl @ js ''501234568'',
                     js ''phone'' @ nl @ js ''501234568'' @ nl @ js ''0501111111''] [1] =
     [js ''phone'' @ nl @ js ''501234568'' @ nl @ js ''0501111111'',
      js ''phone'' @ nl @ js ''0501234567'' @ nl @ js ''501234568'']"
proof -
  have c: "completion_order [js ''phone'' @ nl @ js ''0501234567'' @ nl @ js ''501234568'',
                     js ''phone'' @ nl @ js ''501234568'' @ nl @ js ''0501111111''] [1] =
     [js ''phone'' @ nl @ js ''501234568'' @ nl @ js ''0501111111'',
      js ''phone'' @ nl @ js ''0501234567'' @ nl @ js ''501234568'']"
    by (simp add: Let_def)
  have r1: "records_of (js ''phone'' @ nl @ js ''0501234567'' @ nl @ js ''501234568'') =
      [js ''971501234567'', js ''971501234568'']"
    and r2: "records_of (js ''phone'' @ nl @ js ''501234568'' @ nl @ js ''0501111111'') =
      [js ''971501234568'', js ''971501111111'']"
    by (simp_all add: records_of_def surviving_rows_def normalize_row_def trim_def is_ws_def
        startsWith_def substring_def js_def nl_def Let_def)
  have "first_seen ([js ''971501234568'', js ''971501111111''] @
        [js ''971501234567'', js ''971501234568'']) =
      [js ''971501234568'', js ''971501111111'', js ''971501234567'']"
    by (simp add: first_seen_def js_def)
  with corpus_order [of "[js ''phone'' @ nl @ js ''0501234567'' @ nl @ js ''501234568'',
                     js ''phone'' @ nl @ js ''501234568'' @ nl @ js ''0501111111'']" "[1]"]
  show ?thesis unfolding c by (simp add: r1 r2)
qed

end
